theory Spec2Isabelle
  imports Main "HOL-Library.Word" "HOL-Library.Log_Nat"
begin

section \<open>Proof-of-work challenge solver\<close>

subsection \<open>Bytes\<close>

type_synonym byte = "8 word"

text \<open>A byte sequence read as a big-endian unsigned integer (the reading the
  specification gives to the accept predicate).\<close>

fun be_nat :: "byte list \<Rightarrow> nat" where
  "be_nat [] = 0"
| "be_nat (x # xs) = unat x * 256 ^ length xs + be_nat xs"

subsection \<open>verifyNonce\<close>

text \<open>The \<^verbatim>\<open>for i := 0; i < len(result); i++\<close> loop of \<^verbatim>\<open>verifyNonce\<close>:
  \<^verbatim>\<open>return false\<close> on a greater byte, \<^verbatim>\<open>break\<close> (and then
  \<^verbatim>\<open>return true\<close>) on a smaller one, next index on equal bytes.\<close>

function verifyNonce_loop :: "nat \<Rightarrow> byte list \<Rightarrow> byte list \<Rightarrow> bool" where
  "verifyNonce_loop i result target =
     (if i < length result then
        (if result ! i > target ! i then False
         else if result ! i < target ! i then True
         else verifyNonce_loop (i + 1) result target)
      else True)"
  by pat_completeness auto
termination
  by (relation "measure (\<lambda>(i, result, target). length result - i)") auto

declare verifyNonce_loop.simps [simp del]

definition verifyNonce :: "byte list \<Rightarrow> byte list \<Rightarrow> bool" where
  "verifyNonce result target =
     (if length result \<noteq> length target then False
      else verifyNonce_loop 0 result target)"

section \<open>Properties of the accept predicate\<close>

lemma be_nat_bound: "be_nat xs < 256 ^ length xs"
proof (induction xs)
  case Nil
  show ?case by simp
next
  case (Cons x xs)
  have "unat x < 256" using unsigned_less [of x, where ?'a = nat] by simp
  then have "unat x * 256 ^ length xs + be_nat xs < (unat x + 1) * 256 ^ length xs"
    using Cons.IH by (simp add: algebra_simps)
  also have "\<dots> \<le> 256 * 256 ^ length xs"
    using \<open>unat x < 256\<close> by (intro mult_le_mono1) simp
  finally show ?case by simp
qed

lemma be_nat_Cons_le:
  assumes "length xs = length ys"
  shows "be_nat (x # xs) \<le> be_nat (y # ys) \<longleftrightarrow> x < y \<or> (x = y \<and> be_nat xs \<le> be_nat ys)"
proof -
  let ?B = "(256::nat) ^ length xs"
  have bx: "be_nat xs < ?B" by (rule be_nat_bound)
  have by': "be_nat ys < ?B" using be_nat_bound [of ys] assms by simp
  consider "x < y" | "x = y" | "y < x" by (metis linorder_less_linear)
  then show ?thesis
  proof cases
    case 1
    then have "unat x + 1 \<le> unat y" by (simp add: word_less_nat_alt)
    then have "(unat x + 1) * ?B \<le> unat y * ?B" by (rule mult_le_mono1)
    then have "be_nat (x # xs) \<le> be_nat (y # ys)"
      using bx assms by (simp add: algebra_simps)
    with 1 show ?thesis by simp
  next
    case 2
    then show ?thesis using assms by simp
  next
    case 3
    then have "unat y + 1 \<le> unat x" by (simp add: word_less_nat_alt)
    then have "(unat y + 1) * ?B \<le> unat x * ?B" by (rule mult_le_mono1)
    then have "be_nat (y # ys) < be_nat (x # xs)"
      using by' assms by (simp add: algebra_simps)
    with 3 show ?thesis by auto
  qed
qed

lemma verifyNonce_loop_drop:
  "length a = length b \<Longrightarrow>
   verifyNonce_loop i a b \<longleftrightarrow> be_nat (drop i a) \<le> be_nat (drop i b)"
proof (induction i a b rule: verifyNonce_loop.induct)
  case (1 i result target)
  show ?case
  proof (cases "i < length result")
    case False
    then show ?thesis using "1.prems" by (simp add: verifyNonce_loop.simps)
  next
    case True
    then have it: "i < length target" using "1.prems" by simp
    have da: "drop i result = result ! i # drop (i + 1) result"
      using True by (simp add: Cons_nth_drop_Suc)
    have db: "drop i target = target ! i # drop (i + 1) target"
      using it by (simp add: Cons_nth_drop_Suc)
    have len: "length (drop (i + 1) result) = length (drop (i + 1) target)"
      using "1.prems" by simp
    have cmp: "be_nat (drop i result) \<le> be_nat (drop i target) \<longleftrightarrow>
        result ! i < target ! i \<or>
        (result ! i = target ! i \<and>
         be_nat (drop (i + 1) result) \<le> be_nat (drop (i + 1) target))"
      unfolding da db using len by (rule be_nat_Cons_le)
    show ?thesis
    proof (cases "target ! i < result ! i")
      case gt: True
      then show ?thesis using True cmp
        by (subst verifyNonce_loop.simps) auto
    next
      case ngt: False
      show ?thesis
      proof (cases "result ! i < target ! i")
        case lt: True
        then show ?thesis using True ngt cmp
          by (subst verifyNonce_loop.simps) simp
      next
        case nlt: False
        then have eq: "result ! i = target ! i" using ngt by simp
        have "verifyNonce_loop i result target = verifyNonce_loop (i + 1) result target"
          using True ngt nlt by (subst verifyNonce_loop.simps) simp
        also have "\<dots> \<longleftrightarrow> be_nat (drop (i + 1) result) \<le> be_nat (drop (i + 1) target)"
          using "1.IH" [OF True ngt nlt "1.prems"] .
        finally show ?thesis using cmp eq by simp
      qed
    qed
  qed
qed

text \<open>C1. For byte sequences of equal length, \<open>verifyNonce\<close> accepts exactly when
  the first, read as a big-endian unsigned integer, is at most the second read
  the same way; the byte-wise early exit and the numeric comparison agree on
  every such input, and a sequence compared with itself is accepted.\<close>

theorem verifyNonce_iff_be_le:
  "(length a = length b \<longrightarrow> (verifyNonce a b \<longleftrightarrow> be_nat a \<le> be_nat b))
   \<and> verifyNonce a a"
  by (simp add: verifyNonce_def verifyNonce_loop_drop)

theorem verifyNonce_iff_be_le_witness:
  "length [0x12, 0x34 :: byte] = length [0x12, 0x35 :: byte]
   \<and> verifyNonce [0x12, 0x34] [0x12, 0x35]
   \<and> be_nat [0x12, 0x34] \<le> be_nat [0x12, 0x35]
   \<and> \<not> verifyNonce [0x12, 0x35] [0x12, 0x34]
   \<and> \<not> be_nat [0x12, 0x35] \<le> be_nat [0x12, 0x34]"
  using verifyNonce_iff_be_le [of "[0x12, 0x34]" "[0x12, 0x35]"]
    verifyNonce_iff_be_le [of "[0x12, 0x35]" "[0x12, 0x34]"]
  by simp

end
